theory Spec2Isabelle
  imports Main "HOL-Library.Char_ord" "HOL-Library.List_Lexorder" "HOL-Library.Multiset"
begin

section \<open>Strings\<close>

text \<open>
  A Python \<open>str\<close> is modelled by its UTF-8 encoding, a \<open>string\<close> of bytes. The order on
  \<open>string\<close> is the lexicographic order on bytes, which on UTF-8 coincides with Python's
  order on code points. The non-ASCII symbols of the template are written as their bytes.
\<close>

abbreviation LF :: char where "LF \<equiv> CHR 0x0A"
abbreviation CR :: char where "CR \<equiv> CHR 0x0D"

definition endswith :: "string \<Rightarrow> string \<Rightarrow> bool" where
  "endswith s suf = (length suf \<le> length s \<and> drop (length s - length suf) s = suf)"

text \<open>
  \<open>PurePath.suffix\<close>: with \<open>i\<close> the index of the last dot of the name, the suffix is
  \<open>name[i:]\<close> when \<open>0 < i < len(name) - 1\<close>, and the empty string otherwise.
\<close>

definition path_suffix :: "string \<Rightarrow> string" where
  "path_suffix nm =
     (if CHR ''.'' \<notin> set nm then []
      else let i = length nm - 1 - length (takeWhile (\<lambda>c. c \<noteq> CHR ''.'') (rev nm))
           in if 0 < i \<and> i < length nm - 1 then drop i nm else [])"

definition is_lower :: "char \<Rightarrow> bool" where
  "is_lower c = (97 \<le> (of_char c :: nat) \<and> (of_char c :: nat) \<le> 122)"

definition is_upper :: "char \<Rightarrow> bool" where
  "is_upper c = (65 \<le> (of_char c :: nat) \<and> (of_char c :: nat) \<le> 90)"

definition to_upper :: "char \<Rightarrow> char" where
  "to_upper c = (if is_lower c then char_of ((of_char c :: nat) - 32) else c)"

definition to_lower :: "char \<Rightarrow> char" where
  "to_lower c = (if is_upper c then char_of ((of_char c :: nat) + 32) else c)"

text \<open>
  \<open>str.title()\<close>: a cased character that follows an uncased one is put in upper case,
  a cased character that follows a cased one in lower case. The model knows the ASCII
  letters as cased; every other byte is uncased and kept (exact for names whose
  non-ASCII characters are uncased).
\<close>

fun title_from :: "bool \<Rightarrow> string \<Rightarrow> string" where
  "title_from previous_is_cased [] = []"
| "title_from previous_is_cased (c # cs) =
     (if is_lower c then (if previous_is_cased then c else to_upper c) # title_from True cs
      else if is_upper c then (if previous_is_cased then to_lower c else c) # title_from True cs
      else c # title_from False cs)"

definition title :: "string \<Rightarrow> string" where
  "title s = title_from False s"

text \<open>The decimal numeral of a natural number, as an f-string prints an \<open>int\<close>.\<close>

definition digit :: "nat \<Rightarrow> char" where
  "digit d = char_of (48 + d)"

function str_nat :: "nat \<Rightarrow> string" where
  "str_nat n = (if n < 10 then [digit n] else str_nat (n div 10) @ [digit (n mod 10)])"
  by pat_completeness auto
termination
  by (relation "measure (\<lambda>n. n)") auto

declare str_nat.simps [simp del]

text \<open>\<open>'\n'.join(lines)\<close>\<close>

fun join_lines :: "string list \<Rightarrow> string" where
  "join_lines [] = []"
| "join_lines [l] = l"
| "join_lines (l # m # ls) = l @ LF # join_lines (m # ls)"

text \<open>
  \<open>f.readlines()\<close> of a file opened in text mode with the default \<open>newline=None\<close>:
  a line ends at \<open>\n\<close>, at \<open>\r\n\<close> or at a lone \<open>\r\<close>, each translated to \<open>\n\<close>;
  text after the last line end is a last line of its own.
\<close>

fun readlines_from :: "string \<Rightarrow> string \<Rightarrow> string list" where
  "readlines_from cur [] = (if cur = [] then [] else [cur])"
| "readlines_from cur (c # cs) =
     (if c = LF then (cur @ [LF]) # readlines_from [] cs
      else if c = CR then
        (case cs of
           [] \<Rightarrow> [cur @ [LF]]
         | d # ds \<Rightarrow>
             if d = LF then (cur @ [LF]) # readlines_from [] ds
             else (cur @ [LF]) # readlines_from [] (d # ds))
      else readlines_from (cur @ [c]) cs)"

definition readlines :: "string \<Rightarrow> string list" where
  "readlines s = readlines_from [] s"

section \<open>The file system\<close>

text \<open>
  A file system is a tree of regular files and directories (no symbolic links). A file
  holds its text when it can be read and decoded and \<open>None\<close> when reading it raises. A
  directory holds whether new entries may be created in it and its entries in the order
  in which the operating system enumerates them. \<open>Locked\<close> is a directory whose entries
  cannot be enumerated. The tree is the one rooted at \<open>/\<close>; a path is the list of its
  components below that root.
\<close>

datatype node = File "string option" | Dir bool "(string \<times> node) list" | Locked

type_synonym path = "string list"

datatype error = FileNotFoundError | NotADirectoryError | IsADirectoryError | PermissionError

fun lookup :: "node \<Rightarrow> path \<Rightarrow> node option" where
  "lookup n [] = Some n"
| "lookup (Dir w es) (c # cs) = (case map_of es c of None \<Rightarrow> None | Some n \<Rightarrow> lookup n cs)"
| "lookup (File t) (c # cs) = None"
| "lookup Locked (c # cs) = None"

text \<open>\<open>Path.exists()\<close>\<close>

definition path_exists :: "node \<Rightarrow> path \<Rightarrow> bool" where
  "path_exists fs p = (lookup fs p \<noteq> None)"

text \<open>\<open>Path.name\<close> and \<open>Path.parent\<close>; the root \<open>/\<close> has the empty name and is its own parent.\<close>

definition path_name :: "path \<Rightarrow> string" where
  "path_name p = (if p = [] then [] else last p)"

definition parent :: "path \<Rightarrow> path" where
  "parent p = butlast p"

text \<open>
  \<open>Path.write_text\<close>: the file at the path is created in its directory, or its text is
  replaced when it is there already.
\<close>

fun replace_entry :: "string \<Rightarrow> node \<Rightarrow> (string \<times> node) list \<Rightarrow> (string \<times> node) list" where
  "replace_entry c n [] = []"
| "replace_entry c n ((k, v) # es) =
     (if k = c then (k, n) # es else (k, v) # replace_entry c n es)"

fun write_text :: "node \<Rightarrow> path \<Rightarrow> string \<Rightarrow> error + node" where
  "write_text (File t) [] s = Inr (File (Some s))"
| "write_text (Dir w es) [] s = Inl IsADirectoryError"
| "write_text Locked [] s = Inl IsADirectoryError"
| "write_text (Dir w es) (c # cs) s =
     (case map_of es c of
        None \<Rightarrow>
          if cs \<noteq> [] then Inl FileNotFoundError
          else if w then Inr (Dir w (es @ [(c, File (Some s))]))
          else Inl PermissionError
      | Some n \<Rightarrow>
          (case write_text n cs s of
             Inl e \<Rightarrow> Inl e
           | Inr n' \<Rightarrow> Inr (Dir w (replace_entry c n' es))))"
| "write_text (File t) (c # cs) s = Inl NotADirectoryError"
| "write_text Locked (c # cs) s = Inl PermissionError"

text \<open>
  \<open>os.walk(start)\<close>, top-down: a directory that can be enumerated is yielded first, then
  the walk descends into each of its subdirectories in enumeration order. A directory
  that cannot be enumerated is passed over silently (\<open>onerror\<close> is not set).
\<close>

fun walk :: "path \<Rightarrow> node \<Rightarrow> path list"
  and walk_entries :: "path \<Rightarrow> (string \<times> node) list \<Rightarrow> path list" where
  "walk p (File t) = []"
| "walk p Locked = []"
| "walk p (Dir w es) = p # walk_entries p es"
| "walk_entries p [] = []"
| "walk_entries p (e # es) = walk (p @ [fst e]) (snd e) @ walk_entries p es"

definition os_walk :: "node \<Rightarrow> path \<Rightarrow> path list" where
  "os_walk fs start = (case lookup fs start of None \<Rightarrow> [] | Some n \<Rightarrow> walk start n)"

section \<open>Folder analyzer\<close>

record folder_info =
  path :: path
  name :: string
  files :: "string list"
  subfolders :: "string list"
  line_counts :: "string \<rightharpoonup> nat"
  has_typescript :: bool
  has_javascript :: bool
  has_json :: bool
  has_markdown :: bool

definition new_info :: "path \<Rightarrow> folder_info" where
  "new_info folder_path =
     \<lparr>path = folder_path, name = path_name folder_path, files = [], subfolders = [],
      line_counts = Map.empty, has_typescript = False, has_javascript = False,
      has_json = False, has_markdown = False\<rparr>"

definition excluded :: "string list" where
  "excluded = [''node_modules'', ''.git'', ''__pycache__'']"

text \<open>The lines of a file, counted as the \<open>try\<close> block does: 0 when the read raises.\<close>

definition count_lines :: "string option \<Rightarrow> nat" where
  "count_lines t = (case t of Some s \<Rightarrow> length (readlines s) | None \<Rightarrow> 0)"

text \<open>One pass of the loop over \<open>folder_path.iterdir()\<close>.\<close>

definition analyze_item :: "folder_info \<Rightarrow> string \<times> node \<Rightarrow> folder_info" where
  "analyze_item info item =
     (case snd item of
        File t \<Rightarrow>
          (let info1 = info\<lparr>files := files info @ [fst item]\<rparr> in
           if path_suffix (fst item) \<in> set [''.ts'', ''.tsx''] then
             info1\<lparr>has_typescript := True,
                   line_counts := (line_counts info1)(fst item \<mapsto> count_lines t)\<rparr>
           else if path_suffix (fst item) \<in> set [''.js'', ''.jsx''] then
             info1\<lparr>has_javascript := True\<rparr>
           else if path_suffix (fst item) = ''.json'' then info1\<lparr>has_json := True\<rparr>
           else if path_suffix (fst item) = ''.md'' then info1\<lparr>has_markdown := True\<rparr>
           else info1)
      | _ \<Rightarrow>
          if fst item \<notin> set excluded
          then info\<lparr>subfolders := subfolders info @ [fst item]\<rparr>
          else info)"

definition analyze_entries :: "path \<Rightarrow> (string \<times> node) list \<Rightarrow> folder_info" where
  "analyze_entries folder_path es = foldl analyze_item (new_info folder_path) es"

text \<open>\<open>analyze_folder\<close>; \<open>iterdir()\<close> raises when the path is not a directory that can be enumerated.\<close>

definition analyze_folder :: "node \<Rightarrow> path \<Rightarrow> error + folder_info" where
  "analyze_folder fs folder_path =
     (case lookup fs folder_path of
        None \<Rightarrow> Inl FileNotFoundError
      | Some (File t) \<Rightarrow> Inl NotADirectoryError
      | Some Locked \<Rightarrow> Inl PermissionError
      | Some (Dir w es) \<Rightarrow> Inr (analyze_entries folder_path es))"

section \<open>Template renderer\<close>

definition purpose_map :: "(string \<times> string) list" where
  "purpose_map =
     [(''agent'', ''AI Agent System''),
      (''memory'', ''Memory Management System''),
      (''cli'', ''Command-Line Interface''),
      (''gateway'', ''Main Gateway/Server''),
      (''tools'', ''Tool Definitions and Implementations''),
      (''utils'', ''Utility Functions''),
      (''types'', ''TypeScript Type Definitions''),
      (''plugins'', ''Plugin System''),
      (''protocol'', ''Communication Protocols''),
      (''storage'', ''Data Storage and Persistence''),
      (''web'', ''Web Interface/Dashboard''),
      (''shadow'', ''Shadow/Parallel Execution System''),
      (''subagents'', ''Sub-agent Management''),
      (''config'', ''Configuration Management'')]"

text \<open>\<open>purpose_map.get(folder_name, f'{folder_name.title()} Module')\<close>\<close>

definition purpose :: "string \<Rightarrow> string" where
  "purpose folder_name =
     (case map_of purpose_map folder_name of
        Some p \<Rightarrow> p
      | None \<Rightarrow> title folder_name @ '' Module'')"

definition sym_folder :: string where "sym_folder = [CHR 0xF0, CHR 0x9F, CHR 0x93, CHR 0x81]"
definition sym_target :: string where "sym_target = [CHR 0xF0, CHR 0x9F, CHR 0x8E, CHR 0xAF]"
definition sym_page :: string where "sym_page = [CHR 0xF0, CHR 0x9F, CHR 0x93, CHR 0x84]"
definition sym_warning :: string where
  "sym_warning = [CHR 0xE2, CHR 0x9A, CHR 0xA0, CHR 0xEF, CHR 0xB8, CHR 0x8F]"
definition sym_plug :: string where "sym_plug = [CHR 0xF0, CHR 0x9F, CHR 0x94, CHR 0x8C]"
definition sym_cycle :: string where "sym_cycle = [CHR 0xF0, CHR 0x9F, CHR 0x94, CHR 0x84]"
definition sym_siren :: string where "sym_siren = [CHR 0xF0, CHR 0x9F, CHR 0x9A, CHR 0xA8]"
definition sym_books :: string where "sym_books = [CHR 0xF0, CHR 0x9F, CHR 0x93, CHR 0x9A]"

definition title_line :: "string \<Rightarrow> string" where
  "title_line folder_name =
     ''# '' @ sym_folder @ '' '' @ folder_name @ ''/ - '' @ purpose folder_name"

text \<open>The line of one file in the loop of the key files section, if it gets one.\<close>

definition key_file_line :: "folder_info \<Rightarrow> string \<Rightarrow> string option" where
  "key_file_line folder_info file =
     (case (if endswith file ''.ts'' then line_counts folder_info file else None) of
        Some n \<Rightarrow> Some (''- `'' @ file @ ''` - ('' @ str_nat n @ '' lines) [Description]'')
      | None \<Rightarrow>
          if endswith file ''.ts'' \<or> endswith file ''.js'' \<or> endswith file ''.json''
             \<or> endswith file ''.md''
          then Some (''- `'' @ file @ ''` - [Description]'')
          else None)"

definition subfolder_line :: "string \<Rightarrow> string" where
  "subfolder_line subfolder = ''- `'' @ subfolder @ ''/` - [Purpose]''"

definition key_files_header :: string where
  "key_files_header = ''## '' @ sym_page @ '' Key Files''"

definition subfolders_header :: string where
  "subfolders_header = ''## '' @ sym_folder @ '' Subfolders''"

definition related_header :: string where
  "related_header = ''## '' @ sym_books @ '' Related Documentation''"

definition related_link :: "string \<Rightarrow> string" where
  "related_link parent_name = ''- See `../README.md` for '' @ parent_name @ '' overview''"

definition key_files_section :: "folder_info \<Rightarrow> string list" where
  "key_files_section folder_info =
     (if files folder_info \<noteq> []
      then key_files_header
             # List.map_filter (key_file_line folder_info) (sort (files folder_info)) @ [[]]
      else [])"

definition subfolders_section :: "folder_info \<Rightarrow> string list" where
  "subfolders_section folder_info =
     (if subfolders folder_info \<noteq> []
      then subfolders_header # map subfolder_line (sort (subfolders folder_info)) @ [[]]
      else [])"

definition fixed_sections :: "string list" where
  "fixed_sections =
     [''## '' @ sym_warning @ '' Important Constraints'',
      ''- [Add important technical constraints or requirements]'',
      ''- [Add rate limits, API constraints, etc.]'',
      [],
      ''## '' @ sym_plug @ '' Public Interfaces'',
      ''- `[ClassNameOrFunction]` - [Purpose]'',
      [],
      ''## '' @ sym_cycle @ '' Integration Points'',
      ''- **Connected to**: [Other modules this interacts with]'',
      ''- **Used by**: [Who consumes this module]'',
      [],
      ''## '' @ sym_siren @ '' Common Issues & Fixes'',
      ''1. **[Common error]**: [Solution]'',
      ''2. **[Performance issue]**: [Optimization]'',
      []]"

definition related_section :: "string option \<Rightarrow> string list" where
  "related_section parent_info =
     related_header
       # (case parent_info of Some parent_name \<Rightarrow> [related_link parent_name] | None \<Rightarrow> [])"

definition footer :: "string list" where
  "footer =
     [[], ''---'',
      ''*This README was auto-generated. Please update with specific details about this module.*'']"

text \<open>
  The list \<open>lines\<close> built by \<open>generate_readme_content\<close>. The parent summary is the dictionary
  \<open>{'name': ...}\<close> or \<open>None\<close>, modelled by the optional parent name. (The local
  \<open>project_name\<close> of the source is never used.)
\<close>

definition readme_lines :: "folder_info \<Rightarrow> string option \<Rightarrow> string list" where
  "readme_lines folder_info parent_info =
     [title_line (name folder_info), [],
      ''## '' @ sym_target @ '' What This Folder Does'',
      ''[Brief description of what this module does within Talon AI Assistant]'',
      []]
     @ key_files_section folder_info
     @ subfolders_section folder_info
     @ fixed_sections
     @ related_section parent_info
     @ footer"

definition generate_readme_content :: "folder_info \<Rightarrow> string option \<Rightarrow> string" where
  "generate_readme_content folder_info parent_info =
     join_lines (readme_lines folder_info parent_info)"

section \<open>Driver\<close>

definition project_root :: path where
  "project_root = [''Users'', ''orlandoascanio'', ''Desktop'', ''PersonalOpenClawVersion'']"

definition src_path :: path where
  "src_path = project_root @ [''src'']"

definition readme :: string where
  "readme = ''README.md''"

text \<open>What the run prints, line by line, and what it leaves behind.\<close>

datatype event =
    Missing_root
  | Readme_exists path
  | Created path
  | Failed path error

record run =
  log :: "event list"
  tree :: node
  raised :: "error option"

text \<open>
  Discovery: the folders under \<open>src\<close> that the walk yields and that hold no \<open>README.md\<close>,
  in the order of the walk.
\<close>

definition folders_to_process :: "node \<Rightarrow> path list" where
  "folders_to_process fs =
     filter (\<lambda>root_path. \<not> path_exists fs (root_path @ [readme])) (os_walk fs src_path)"

definition skipped :: "node \<Rightarrow> path list" where
  "skipped fs =
     filter (\<lambda>root_path. path_exists fs (root_path @ [readme])) (os_walk fs src_path)"

text \<open>\<open>len(p.parts)\<close>: the parts of an absolute path are the anchor and the components.\<close>

definition parts :: "path \<Rightarrow> string list" where
  "parts p = ''/'' # p"

text \<open>The parent summary of the generation loop.\<close>

definition parent_info_of :: "node \<Rightarrow> path \<Rightarrow> string option" where
  "parent_info_of fs folder_path =
     (if parent folder_path \<noteq> src_path \<and> parent folder_path \<noteq> project_root
      then (if path_exists fs (parent folder_path @ [readme])
            then Some (path_name (parent folder_path)) else None)
      else None)"

text \<open>
  The body of the generation loop for one folder. An exception of \<open>analyze_folder\<close> is
  not caught (\<open>Inl\<close>); one of \<open>write_text\<close> is caught and printed.
\<close>

definition process_folder :: "node \<Rightarrow> path \<Rightarrow> error + event \<times> node" where
  "process_folder fs folder_path =
     (case analyze_folder fs folder_path of
        Inl e \<Rightarrow> Inl e
      | Inr folder_info \<Rightarrow>
          (let content = generate_readme_content folder_info (parent_info_of fs folder_path)
           in case write_text fs (folder_path @ [readme]) content of
                Inl e \<Rightarrow> Inr (Failed folder_path e, fs)
              | Inr fs' \<Rightarrow> Inr (Created folder_path, fs')))"

text \<open>The generation loop over the queue; an exception ends it where it stands.\<close>

fun generation :: "node \<Rightarrow> path list \<Rightarrow> run" where
  "generation fs [] = \<lparr>log = [], tree = fs, raised = None\<rparr>"
| "generation fs (folder_path # queue) =
     (case process_folder fs folder_path of
        Inl e \<Rightarrow> \<lparr>log = [], tree = fs, raised = Some e\<rparr>
      | Inr (ev, fs') \<Rightarrow> (let r = generation fs' queue in r\<lparr>log := ev # log r\<rparr>))"

definition main :: "node \<Rightarrow> run" where
  "main fs =
     (if \<not> path_exists fs src_path then \<lparr>log = [Missing_root], tree = fs, raised = None\<rparr>
      else
        (let r = generation fs (sort_key (\<lambda>p. length (parts p)) (folders_to_process fs))
         in r\<lparr>log := map Readme_exists (skipped fs) @ log r\<rparr>))"

section \<open>Auxiliary notions used to state the properties\<close>

text \<open>\<open>item.is_file()\<close>\<close>

definition is_file :: "node \<Rightarrow> bool" where
  "is_file n = (case n of File t \<Rightarrow> True | _ \<Rightarrow> False)"

text \<open>The names of the regular files of a directory, in enumeration order.\<close>

definition file_names :: "(string \<times> node) list \<Rightarrow> string list" where
  "file_names es = map fst (filter (\<lambda>e. is_file (snd e)) es)"

text \<open>The names of the subdirectories of a directory outside the exclusion list.\<close>

definition listed_subfolders :: "(string \<times> node) list \<Rightarrow> string list" where
  "listed_subfolders es =
     filter (\<lambda>n. n \<notin> set excluded) (map fst (filter (\<lambda>e. \<not> is_file (snd e)) es))"

text \<open>A tree that holds the given node as the project root, below its four ancestors.\<close>

definition at_root :: "node \<Rightarrow> node" where
  "at_root n =
     Dir True [(''Users'', Dir True [(''orlandoascanio'', Dir True [(''Desktop'', Dir True
       [(''PersonalOpenClawVersion'', n)])])])]"

text \<open>
  A tree is well formed when no directory holds two entries of the same name, as in every
  real file system.
\<close>

fun well_formed :: "node \<Rightarrow> bool"
  and well_formed_entries :: "(string \<times> node) list \<Rightarrow> bool" where
  "well_formed (File t) = True"
| "well_formed Locked = True"
| "well_formed (Dir w es) = (distinct (map fst es) \<and> well_formed_entries es)"
| "well_formed_entries [] = True"
| "well_formed_entries (e # es) = (well_formed (snd e) \<and> well_formed_entries es)"

text \<open>The printed line reports a failed write.\<close>

fun is_failed :: "event \<Rightarrow> bool" where
  "is_failed (Failed p e) = True"
| "is_failed ev = False"


text \<open>Three small projects used as concrete inputs.\<close>

definition project_with_readme :: node where
  "project_with_readme =
     at_root (Dir True [(''src'', Dir True
       [(''README.md'', File (Some ''mine'')), (''agent'', Dir True [])])])"

definition project_plain :: node where
  "project_plain =
     at_root (Dir True [(''src'', Dir True
       [(''Agent'', Dir True [(''tools'', Dir True [])]), (''node_modules'', Dir True [])])])"

definition project_locked :: node where
  "project_locked =
     at_root (Dir True [(''src'', Dir True [(''a'', Locked), (''b'', Dir True [])])])"

text \<open>A project where \<open>src/a\<close> holds \<open>README.md\<close> and \<open>src/a/b\<close> does not.\<close>

definition project_nested :: node where
  "project_nested =
     at_root (Dir True [(''src'', Dir True
       [(''a'', Dir True [(''README.md'', File None), (''b'', Dir True [])])])])"

section \<open>The analyzer's result\<close>

lemma foldl_name: "name (foldl analyze_item info es) = name info"
  by (induction es arbitrary: info) (auto simp: analyze_item_def Let_def split: node.splits)

lemma foldl_files: "files (foldl analyze_item info es) = files info @ file_names es"
  by (induction es arbitrary: info)
     (auto simp: analyze_item_def Let_def file_names_def is_file_def split: node.splits)

lemma foldl_subfolders:
  "subfolders (foldl analyze_item info es) = subfolders info @ listed_subfolders es"
  by (induction es arbitrary: info)
     (auto simp: analyze_item_def Let_def listed_subfolders_def is_file_def split: node.splits)

lemma item_line_counts:
  "line_counts (analyze_item info (f, n)) =
     (case n of
        File t \<Rightarrow> if path_suffix f \<in> set [''.ts'', ''.tsx'']
                  then (line_counts info)(f \<mapsto> count_lines t) else line_counts info
      | _ \<Rightarrow> line_counts info)"
  by (auto simp: analyze_item_def Let_def split: node.splits)

lemma foldl_line_counts_dom:
  "dom (line_counts (foldl analyze_item info es)) =
     dom (line_counts info) \<union>
     {f. \<exists>t. (f, File t) \<in> set es \<and> path_suffix f \<in> set [''.ts'', ''.tsx'']}"
proof (induction es arbitrary: info)
  case Nil
  show ?case by simp
next
  case (Cons e es)
  obtain f n where e: "e = (f, n)" by (cases e)
  show ?case
    unfolding e foldl_Cons Cons.IH item_line_counts
    by (cases n) auto
qed

lemma foldl_line_counts_other:
  "f \<notin> fst ` set es \<Longrightarrow> line_counts (foldl analyze_item info es) f = line_counts info f"
proof (induction es arbitrary: info)
  case Nil
  show ?case by simp
next
  case (Cons e es)
  obtain g n where e: "e = (g, n)" by (cases e)
  from Cons.prems have "f \<noteq> g" and "f \<notin> fst ` set es" by (auto simp: e)
  then show ?case
    unfolding e foldl_Cons by (simp add: Cons.IH item_line_counts split: node.splits)
qed

lemma foldl_line_counts_value:
  "distinct (map fst es) \<Longrightarrow> (f, File t) \<in> set es \<Longrightarrow> path_suffix f \<in> set [''.ts'', ''.tsx'']
   \<Longrightarrow> line_counts (foldl analyze_item info es) f = Some (count_lines t)"
proof (induction es arbitrary: info)
  case Nil
  then show ?case by simp
next
  case (Cons e es)
  obtain g n where e: "e = (g, n)" by (cases e)
  show ?case
  proof (cases "(f, File t) = e")
    case True
    with Cons.prems have "f \<notin> fst ` set es" by force
    with True Cons.prems(3) show ?thesis
      by (auto simp: foldl_line_counts_other item_line_counts e simp del: set_simps)
  next
    case False
    with Cons.prems have "(f, File t) \<in> set es" "distinct (map fst es)" by auto
    then show ?thesis using Cons.IH Cons.prems(3) by simp
  qed
qed

lemma path_suffix_endswith: "path_suffix nm = s \<Longrightarrow> s \<noteq> [] \<Longrightarrow> endswith nm s"
  by (auto simp: path_suffix_def endswith_def Let_def split: if_splits)

lemma analyze_entries_name: "name (analyze_entries p es) = path_name p"
  by (simp add: analyze_entries_def foldl_name new_info_def)

lemma analyze_entries_files: "files (analyze_entries p es) = file_names es"
  by (simp add: analyze_entries_def foldl_files new_info_def)

lemma analyze_entries_subfolders: "subfolders (analyze_entries p es) = listed_subfolders es"
  by (simp add: analyze_entries_def foldl_subfolders new_info_def)

lemma analyze_entries_dom:
  "dom (line_counts (analyze_entries p es)) =
     {f. \<exists>t. (f, File t) \<in> set es \<and> path_suffix f \<in> set [''.ts'', ''.tsx'']}"
  by (simp add: analyze_entries_def foldl_line_counts_dom new_info_def)

lemma analyze_entries_value:
  "distinct (map fst es) \<Longrightarrow> (f, File t) \<in> set es \<Longrightarrow> path_suffix f \<in> set [''.ts'', ''.tsx'']
   \<Longrightarrow> line_counts (analyze_entries p es) f = Some (count_lines t)"
  by (simp add: analyze_entries_def foldl_line_counts_value)

lemma file_names_iff: "f \<in> set (file_names es) \<longleftrightarrow> (\<exists>t. (f, File t) \<in> set es)"
  by (induction es) (auto simp: file_names_def is_file_def split: node.splits)

text \<open>
  C10. The analysis of a directory with distinct entry names holds a line count for
  exactly the regular files whose suffix is \<open>.ts\<close> or \<open>.tsx\<close>; the count is 0 for a file
  whose read fails; and for every recorded file with suffix \<open>.ts\<close> the renderer's test
  \<open>file.endswith('.ts') and file in line_counts\<close> succeeds.
\<close>

theorem analysis_line_counts_keys:
  assumes "lookup fs folder_path = Some (Dir w es)" and "distinct (map fst es)"
  shows "\<exists>info. analyze_folder fs folder_path = Inr info
           \<and> dom (line_counts info) =
               {f. \<exists>t. (f, File t) \<in> set es \<and> path_suffix f \<in> set [''.ts'', ''.tsx'']}
           \<and> (\<forall>f. (f, File None) \<in> set es \<and> path_suffix f \<in> set [''.ts'', ''.tsx'']
                  \<longrightarrow> line_counts info f = Some 0)
           \<and> (\<forall>f \<in> set (files info). path_suffix f = ''.ts''
                  \<longrightarrow> endswith f ''.ts'' \<and> f \<in> dom (line_counts info))"
proof -
  let ?info = "analyze_entries folder_path es"
  have a: "analyze_folder fs folder_path = Inr ?info"
    using assms(1) by (simp add: analyze_folder_def)
  have b: "\<forall>f. (f, File None) \<in> set es \<and> path_suffix f \<in> set [''.ts'', ''.tsx'']
             \<longrightarrow> line_counts ?info f = Some 0"
    using analyze_entries_value [OF assms(2), of _ None folder_path]
    by (simp add: count_lines_def)
  have c: "\<forall>f \<in> set (files ?info). path_suffix f = ''.ts''
             \<longrightarrow> endswith f ''.ts'' \<and> f \<in> dom (line_counts ?info)"
    unfolding analyze_entries_dom analyze_entries_files
    by (auto simp: file_names_iff path_suffix_endswith)
  show ?thesis
    apply (rule exI [of _ ?info])
    apply (intro conjI a b c)
    apply (rule analyze_entries_dom)
    done
qed

theorem analysis_line_counts_keys_witness:
  "lookup (Dir True [(''a.ts'', File None), (''b.tsx'', File (Some ''x'')), (''c.md'', File None)]) []
     = Some (Dir True [(''a.ts'', File None), (''b.tsx'', File (Some ''x'')), (''c.md'', File None)])
   \<and> distinct (map fst [(''a.ts'', File None), (''b.tsx'', File (Some ''x'')), (''c.md'', File None)])
   \<and> (\<exists>info.
         analyze_folder
           (Dir True [(''a.ts'', File None), (''b.tsx'', File (Some ''x'')), (''c.md'', File None)]) []
           = Inr info
         \<and> dom (line_counts info) = {''a.ts'', ''b.tsx''}
         \<and> line_counts info ''a.ts'' = Some 0
         \<and> ''a.ts'' \<in> set (files info) \<and> endswith ''a.ts'' ''.ts'')"
proof -
  let ?es = "[(''a.ts'', File None), (''b.tsx'', File (Some ''x'')), (''c.md'', File None)]"
  have h1: "lookup (Dir True ?es) [] = Some (Dir True ?es)" by simp
  have h2: "distinct (map fst ?es)" by simp
  have s: "path_suffix ''a.ts'' = ''.ts''" "path_suffix ''b.tsx'' = ''.tsx''"
    "path_suffix ''c.md'' = ''.md''"
    by (simp_all add: path_suffix_def)
  have d: "{f. \<exists>t. (f, File t) \<in> set ?es \<and> path_suffix f \<in> set [''.ts'', ''.tsx'']}
             = {''a.ts'', ''b.tsx''}"
    using s by (auto simp del: path_suffix_def)
  from analysis_line_counts_keys [OF h1 h2] obtain info where
    i: "analyze_folder (Dir True ?es) [] = Inr info"
      "dom (line_counts info) =
         {f. \<exists>t. (f, File t) \<in> set ?es \<and> path_suffix f \<in> set [''.ts'', ''.tsx'']}"
      "\<forall>f. (f, File None) \<in> set ?es \<and> path_suffix f \<in> set [''.ts'', ''.tsx'']
           \<longrightarrow> line_counts info f = Some 0"
      "\<forall>f \<in> set (files info). path_suffix f = ''.ts''
           \<longrightarrow> endswith f ''.ts'' \<and> f \<in> dom (line_counts info)"
    by blast
  have f: "''a.ts'' \<in> set (files info)"
    using i(1) by (auto simp: analyze_folder_def analyze_entries_files file_names_def is_file_def)
  have z: "line_counts info ''a.ts'' = Some 0" using i(3) s by simp
  have e: "endswith ''a.ts'' ''.ts''" using i(4) f s by blast
  have k: "dom (line_counts info) = {''a.ts'', ''b.tsx''}" using i(2) d by (rule trans)
  show ?thesis
    apply (intro conjI h1 h2)
    apply (rule exI [of _ info])
    apply (intro conjI i(1) k z f e)
    done
qed

section \<open>Line counts\<close>







text \<open>
  C5. A folder whose only files are \<open>App.tsx\<close> and \<open>util.jsx\<close> gets a key files section
  made of the header and the closing empty line: neither file is listed.
\<close>

theorem key_files_omit_tsx_jsx:
  "key_files_section
     (analyze_entries [''src'']
        [(''App.tsx'', File (Some [CHR ''x'', LF])), (''util.jsx'', File (Some []))])
   = [key_files_header, []]"
  by (simp add: key_files_section_def analyze_entries_files file_names_def is_file_def
        key_file_line_def endswith_def)

section \<open>Order of the listed entries\<close>

lemma sort_cong_mset: "mset xs = mset ys \<Longrightarrow> sort xs = sort (ys :: 'a :: linorder list)"
  by (rule properties_for_sort) simp_all

lemma strict_sorted_sort: "distinct xs \<Longrightarrow> sorted_wrt (<) (sort (xs :: 'a :: linorder list))"
  by (simp add: strict_sorted_iff)

lemma distinct_file_names: "distinct (map fst es) \<Longrightarrow> distinct (file_names es)"
  unfolding file_names_def by (rule distinct_map_filter)

lemma distinct_listed_subfolders: "distinct (map fst es) \<Longrightarrow> distinct (listed_subfolders es)"
  unfolding listed_subfolders_def by (simp add: distinct_map_filter)

lemma mset_file_names: "mset es' = mset es \<Longrightarrow> mset (file_names es') = mset (file_names es)"
  by (simp add: file_names_def)

lemma mset_listed_subfolders:
  "mset es' = mset es \<Longrightarrow> mset (listed_subfolders es') = mset (listed_subfolders es)"
  by (simp add: listed_subfolders_def)

lemma mset_eq_Nil_iff: "mset xs = mset ys \<Longrightarrow> (xs = []) = (ys = [])"
  by (metis mset_zero_iff)

lemma line_counts_permuted:
  assumes "distinct (map fst es)" and "mset es' = mset es"
  shows "line_counts (analyze_entries p es') = line_counts (analyze_entries p es)"
proof
  fix f
  from assms(2) have set_eq: "set es' = set es" by (rule mset_eq_setD)
  from assms(2) have "mset (map fst es') = mset (map fst es)" by simp
  with assms(1) have d': "distinct (map fst es')" by (metis mset_eq_imp_distinct_iff)
  show "line_counts (analyze_entries p es') f = line_counts (analyze_entries p es) f"
  proof (cases "\<exists>t. (f, File t) \<in> set es \<and> path_suffix f \<in> set [''.ts'', ''.tsx'']")
    case True
    then obtain t where t: "(f, File t) \<in> set es" "path_suffix f \<in> set [''.ts'', ''.tsx'']"
      by blast
    from t(1) set_eq have t': "(f, File t) \<in> set es'" by simp
    from analyze_entries_value [OF assms(1) t] analyze_entries_value [OF d' t' t(2)]
    show ?thesis by simp
  next
    case False
    then have "f \<notin> dom (line_counts (analyze_entries p es))"
      unfolding analyze_entries_dom by simp
    moreover from False set_eq have "f \<notin> dom (line_counts (analyze_entries p es'))"
      unfolding analyze_entries_dom by simp
    ultimately show ?thesis by (simp add: domIff)
  qed
qed

lemma key_file_line_cong:
  "line_counts a = line_counts b \<Longrightarrow> key_file_line a = key_file_line b"
  by (rule ext) (simp add: key_file_line_def)

lemma readme_lines_permuted:
  assumes "distinct (map fst es)" and "mset es' = mset es"
  shows "readme_lines (analyze_entries p es') parent_info
           = readme_lines (analyze_entries p es) parent_info"
proof -
  have k: "key_file_line (analyze_entries p es') = key_file_line (analyze_entries p es)"
    by (rule key_file_line_cong) (rule line_counts_permuted [OF assms])
  have f: "sort (file_names es') = sort (file_names es)"
    by (rule sort_cong_mset) (rule mset_file_names [OF assms(2)])
  have fe: "(file_names es' = []) = (file_names es = [])"
    by (rule mset_eq_Nil_iff) (rule mset_file_names [OF assms(2)])
  have s: "sort (listed_subfolders es') = sort (listed_subfolders es)"
    by (rule sort_cong_mset) (rule mset_listed_subfolders [OF assms(2)])
  have se: "(listed_subfolders es' = []) = (listed_subfolders es = [])"
    by (rule mset_eq_Nil_iff) (rule mset_listed_subfolders [OF assms(2)])
  have ks: "key_files_section (analyze_entries p es') = key_files_section (analyze_entries p es)"
    unfolding key_files_section_def analyze_entries_files k f fe ..
  have ss: "subfolders_section (analyze_entries p es') = subfolders_section (analyze_entries p es)"
    unfolding subfolders_section_def analyze_entries_subfolders s se ..
  show ?thesis
    unfolding readme_lines_def ks ss analyze_entries_name ..
qed

text \<open>
  C8. For a directory with distinct entry names, the rendered document is the same for
  every enumeration order of the entries; the entries of the key files section are those
  of a strictly increasing list of file names, in that order, and the entries of the
  subfolders section are those of a strictly increasing list of subfolder names.
\<close>

theorem sections_sorted:
  assumes "distinct (map fst es)" and "mset es' = mset es"
  shows "generate_readme_content (analyze_entries p es') parent_info
           = generate_readme_content (analyze_entries p es) parent_info
         \<and> (\<exists>names. sorted_wrt (<) names
               \<and> (\<forall>n \<in> set names. key_file_line (analyze_entries p es) n \<noteq> None)
               \<and> key_files_section (analyze_entries p es)
                   = (if files (analyze_entries p es) = [] then []
                      else key_files_header
                             # map (\<lambda>n. the (key_file_line (analyze_entries p es) n)) names
                             @ [[]]))
         \<and> (\<exists>subs. sorted_wrt (<) subs
               \<and> set subs = set (subfolders (analyze_entries p es))
               \<and> subfolders_section (analyze_entries p es)
                   = (if subfolders (analyze_entries p es) = [] then []
                      else subfolders_header # map subfolder_line subs @ [[]]))"
proof -
  let ?info = "analyze_entries p es"
  let ?names = "filter (\<lambda>n. key_file_line ?info n \<noteq> None) (sort (files ?info))"
  let ?subs = "sort (subfolders ?info)"
  have a: "generate_readme_content (analyze_entries p es') parent_info
             = generate_readme_content ?info parent_info"
    unfolding generate_readme_content_def readme_lines_permuted [OF assms] ..
  have "sorted_wrt (<) (sort (files ?info))"
    unfolding analyze_entries_files
    by (rule strict_sorted_sort) (rule distinct_file_names [OF assms(1)])
  then have b1: "sorted_wrt (<) ?names" by (rule sorted_wrt_filter)
  have b2: "\<forall>n \<in> set ?names. key_file_line ?info n \<noteq> None" by simp
  have b3: "key_files_section ?info
              = (if files ?info = [] then []
                 else key_files_header # map (\<lambda>n. the (key_file_line ?info n)) ?names @ [[]])"
    by (simp add: key_files_section_def List.map_filter_def comp_def)
  have c1: "sorted_wrt (<) ?subs"
    unfolding analyze_entries_subfolders
    by (rule strict_sorted_sort) (rule distinct_listed_subfolders [OF assms(1)])
  have c2: "set ?subs = set (subfolders ?info)" by simp
  have c3: "subfolders_section ?info
              = (if subfolders ?info = [] then []
                 else subfolders_header # map subfolder_line ?subs @ [[]])"
    by (simp add: subfolders_section_def)
  show ?thesis
    apply (intro conjI a)
     apply (rule exI [of _ ?names])
     apply (intro conjI b1 b2 b3)
    apply (rule exI [of _ ?subs])
    apply (intro conjI c1 c2 c3)
    done
qed

theorem sections_sorted_witness:
  "distinct (map fst [(''b.ts'', File None), (''a.md'', File None), (''lib'', Dir True [])])
   \<and> mset [(''lib'', Dir True []), (''a.md'', File None), (''b.ts'', File None)]
       = mset [(''b.ts'', File None), (''a.md'', File None), (''lib'', Dir True [])]
   \<and> generate_readme_content
         (analyze_entries [''src'']
            [(''lib'', Dir True []), (''a.md'', File None), (''b.ts'', File None)]) None
       = generate_readme_content
           (analyze_entries [''src'']
              [(''b.ts'', File None), (''a.md'', File None), (''lib'', Dir True [])]) None"
proof -
  let ?es = "[(''b.ts'', File None), (''a.md'', File None), (''lib'', Dir True [])]"
  let ?es' = "[(''lib'', Dir True []), (''a.md'', File None), (''b.ts'', File None)]"
  have h1: "distinct (map fst ?es)" by simp
  have h2: "mset ?es' = mset ?es" by simp
  note c = sections_sorted [OF h1 h2, of "[''src'']" None, THEN conjunct1]
  show ?thesis by (intro conjI h1 h2 c)
qed

section \<open>Writing a file\<close>

lemma map_of_replace_entry:
  "map_of (replace_entry c n es) k
     = (if k = c \<and> map_of es c \<noteq> None then Some n else map_of es k)"
  by (induction c n es rule: replace_entry.induct) auto

lemma walk_entries_append: "walk_entries p (es @ es') = walk_entries p es @ walk_entries p es'"
  by (induction es) auto

lemma walk_entries_replace:
  "map_of es c = Some n \<Longrightarrow> walk (p @ [c]) n' = walk (p @ [c]) n
   \<Longrightarrow> walk_entries p (replace_entry c n' es) = walk_entries p es"
  by (induction c n' es rule: replace_entry.induct) (auto split: if_splits)

lemma write_text_walk: "write_text n t s = Inr n' \<Longrightarrow> walk p n' = walk p n"
proof (induction n t s arbitrary: n' p rule: write_text.induct)
  case (4 w es c cs s)
  show ?case
  proof (cases "map_of es c")
    case None
    with "4.prems" show ?thesis by (auto simp: walk_entries_append split: if_splits)
  next
    case (Some m)
    with "4.prems" obtain m' where m': "write_text m cs s = Inr m'"
      and n': "n' = Dir w (replace_entry c m' es)"
      by (auto split: sum.splits)
    from "4.IH" [OF Some m'] have "walk (p @ [c]) m' = walk (p @ [c]) m" .
    with Some show ?thesis by (simp add: n' walk_entries_replace)
  qed
qed auto

lemma write_text_lookup_target:
  "write_text n t s = Inr n' \<Longrightarrow> lookup n' t = Some (File (Some s))"
proof (induction n t s arbitrary: n' rule: write_text.induct)
  case (4 w es c cs s)
  show ?case
  proof (cases "map_of es c")
    case None
    with "4.prems" show ?thesis by (auto simp: map_add_def split: if_splits)
  next
    case (Some m)
    with "4.prems" obtain m' where m': "write_text m cs s = Inr m'"
      and n': "n' = Dir w (replace_entry c m' es)"
      by (auto split: sum.splits)
    from "4.IH" [OF Some m'] Some show ?thesis by (simp add: n' map_of_replace_entry)
  qed
qed auto

lemma write_text_keeps_files:
  "write_text n t s = Inr n' \<Longrightarrow> q \<noteq> t \<Longrightarrow> lookup n q = Some (File x)
   \<Longrightarrow> lookup n' q = Some (File x)"
proof (induction n t s arbitrary: n' q rule: write_text.induct)
  case (1 t s)
  then show ?case by (cases q) auto
next
  case (4 w es c cs s)
  from "4.prems"(3) obtain k ks where q: "q = k # ks" by (cases q) auto
  show ?case
  proof (cases "map_of es c")
    case None
    with "4.prems" q show ?thesis
      by (auto split: if_splits option.splits)
  next
    case (Some m)
    with "4.prems" obtain m' where m': "write_text m cs s = Inr m'"
      and n': "n' = Dir w (replace_entry c m' es)"
      by (auto split: sum.splits)
    show ?thesis
    proof (cases "k = c")
      case True
      with "4.prems"(2,3) q Some have "ks \<noteq> cs" "lookup m ks = Some (File x)" by auto
      from "4.IH" [OF Some m' this] True Some show ?thesis
        by (simp add: n' q map_of_replace_entry)
    next
      case False
      with "4.prems"(3) show ?thesis by (simp add: n' q map_of_replace_entry)
    qed
  qed
qed auto

lemma write_text_keeps_dirs:
  "write_text n t s = Inr n' \<Longrightarrow> lookup n q = Some (Dir w es)
   \<Longrightarrow> \<exists>es'. lookup n' q = Some (Dir w es')"
proof (induction n t s arbitrary: n' q rule: write_text.induct)
  case (1 t s)
  then show ?case by (cases q) auto
next
  case (4 w0 es0 c cs s)
  show ?case
  proof (cases q)
    case Nil
    with "4.prems" show ?thesis by (auto split: option.splits if_splits sum.splits)
  next
    case (Cons k ks)
    show ?thesis
    proof (cases "map_of es0 c")
      case None
      with "4.prems" Cons show ?thesis
        by (auto split: if_splits option.splits)
    next
      case (Some m)
      with "4.prems" obtain m' where m': "write_text m cs s = Inr m'"
        and n': "n' = Dir w0 (replace_entry c m' es0)"
        by (auto split: sum.splits)
      show ?thesis
      proof (cases "k = c")
        case True
        with "4.prems"(2) Cons Some have "lookup m ks = Some (Dir w es)" by auto
        from "4.IH" [OF Some m' this] True Some show ?thesis
          by (simp add: n' Cons map_of_replace_entry)
      next
        case False
        with "4.prems"(2) show ?thesis by (simp add: n' Cons map_of_replace_entry)
      qed
    qed
  qed
qed auto

lemma write_text_new_paths:
  "write_text n t s = Inr n' \<Longrightarrow> lookup n' q \<noteq> None \<Longrightarrow> lookup n q \<noteq> None \<or> q = t"
proof (induction n t s arbitrary: n' q rule: write_text.induct)
  case (1 t s)
  then show ?case by (cases q) auto
next
  case (4 w es c cs s)
  show ?case
  proof (cases q)
    case Nil
    then show ?thesis by simp
  next
    case (Cons k ks)
    show ?thesis
    proof (cases "map_of es c")
      case None
      with "4.prems" Cons show ?thesis
        by (cases ks) (auto split: if_splits option.splits)
    next
      case (Some m)
      with "4.prems" obtain m' where m': "write_text m cs s = Inr m'"
        and n': "n' = Dir w (replace_entry c m' es)"
        by (auto split: sum.splits)
      show ?thesis
      proof (cases "k = c")
        case True
        with "4.prems"(2) Cons Some have "lookup m' ks \<noteq> None"
          by (simp add: n' map_of_replace_entry)
        from "4.IH" [OF Some m' this] True Some show ?thesis
          by (auto simp: Cons)
      next
        case False
        with "4.prems"(2) show ?thesis by (simp add: n' Cons map_of_replace_entry)
      qed
    qed
  qed
qed auto

lemma write_text_keeps_paths:
  "write_text n t s = Inr n' \<Longrightarrow> lookup n q \<noteq> None \<Longrightarrow> lookup n' q \<noteq> None"
proof (induction n t s arbitrary: n' q rule: write_text.induct)
  case (1 t s)
  then show ?case by (cases q) auto
next
  case (4 w es c cs s)
  show ?case
  proof (cases q)
    case Nil
    then show ?thesis by simp
  next
    case (Cons k ks)
    show ?thesis
    proof (cases "map_of es c")
      case None
      with "4.prems" Cons show ?thesis
        by (auto split: if_splits option.splits)
    next
      case (Some m)
      with "4.prems" obtain m' where m': "write_text m cs s = Inr m'"
        and n': "n' = Dir w (replace_entry c m' es)"
        by (auto split: sum.splits)
      show ?thesis
      proof (cases "k = c")
        case True
        with "4.prems"(2) Cons Some have "lookup m ks \<noteq> None" by simp
        from "4.IH" [OF Some m' this] True Some show ?thesis
          by (simp add: n' Cons map_of_replace_entry)
      next
        case False
        with "4.prems"(2) show ?thesis by (simp add: n' Cons map_of_replace_entry)
      qed
    qed
  qed
qed auto

lemma write_text_lookup_walk:
  "write_text n t s = Inr n'
   \<Longrightarrow> (case lookup n' q of None \<Rightarrow> [] | Some m \<Rightarrow> walk p m)
       = (case lookup n q of None \<Rightarrow> [] | Some m \<Rightarrow> walk p m)"
proof (induction n t s arbitrary: n' q rule: write_text.induct)
  case (1 t s)
  then show ?case by (cases q) auto
next
  case (4 w es c cs s)
  show ?case
  proof (cases q)
    case Nil
    with write_text_walk [OF "4.prems"] show ?thesis by simp
  next
    case (Cons k ks)
    show ?thesis
    proof (cases "map_of es c")
      case None
      with "4.prems" Cons show ?thesis
        by (cases ks) (auto split: if_splits option.splits)
    next
      case (Some m)
      with "4.prems" obtain m' where m': "write_text m cs s = Inr m'"
        and n': "n' = Dir w (replace_entry c m' es)"
        by (auto split: sum.splits)
      show ?thesis
      proof (cases "k = c")
        case True
        from "4.IH" [OF Some m', of ks] True Some show ?thesis
          by (simp add: n' Cons map_of_replace_entry)
      next
        case False
        then show ?thesis by (simp add: n' Cons map_of_replace_entry)
      qed
    qed
  qed
qed auto

lemma write_text_os_walk: "write_text fs t s = Inr fs' \<Longrightarrow> os_walk fs' start = os_walk fs start"
  unfolding os_walk_def by (rule write_text_lookup_walk)

lemma write_text_succeeds:
  "lookup fs p = Some (Dir True es)
   \<Longrightarrow> lookup fs (p @ [c]) = None \<or> (\<exists>x. lookup fs (p @ [c]) = Some (File x))
   \<Longrightarrow> \<exists>fs'. write_text fs (p @ [c]) s = Inr fs'"
proof (induction p arbitrary: fs)
  case Nil
  then show ?case by (auto split: option.splits)
next
  case (Cons k ks)
  from Cons.prems(1) obtain w0 es0 m where fs: "fs = Dir w0 es0" and m: "map_of es0 k = Some m"
    and l: "lookup m ks = Some (Dir True es)"
    by (cases fs) (auto split: option.splits)
  from Cons.prems(2) have "lookup m (ks @ [c]) = None \<or> (\<exists>x. lookup m (ks @ [c]) = Some (File x))"
    by (simp add: fs m)
  from Cons.IH [OF l this] obtain m' where "write_text m (ks @ [c]) s = Inr m'" by blast
  then show ?case by (simp add: fs m)
qed

section \<open>The walk\<close>

lemma walk_entries_mono:
  "(k, m) \<in> set es \<Longrightarrow> set (walk (p @ [k]) m) \<subseteq> set (walk_entries p es)"
  by (induction es) auto

lemma lookup_in_walk: "lookup n rel = Some (Dir w es) \<Longrightarrow> p @ rel \<in> set (walk p n)"
proof (induction rel arbitrary: n p)
  case Nil
  then show ?case by simp
next
  case (Cons k ks)
  from Cons.prems obtain w0 es0 m where n: "n = Dir w0 es0" and m: "map_of es0 k = Some m"
    and l: "lookup m ks = Some (Dir w es)"
    by (cases n) (auto split: option.splits)
  from Cons.IH [OF l, of "p @ [k]"] have "p @ k # ks \<in> set (walk (p @ [k]) m)" by simp
  with walk_entries_mono [OF map_of_SomeD [OF m], of p] show ?case by (auto simp: n)
qed

lemma walk_is_dir_aux:
  "(well_formed n \<longrightarrow> (\<forall>q \<in> set (walk p n). \<exists>rel w es. q = p @ rel \<and> lookup n rel = Some (Dir w es)))"
  "(well_formed_entries es0 \<longrightarrow>
      (\<forall>q \<in> set (walk_entries p0 es0). \<exists>k m rel w es.
          (k, m) \<in> set es0 \<and> q = p0 @ k # rel \<and> lookup m rel = Some (Dir w es)))"
proof (induction p n and p0 es0 rule: walk_walk_entries.induct)
  case (3 p w es)
  show ?case
  proof (intro impI ballI)
    fix q
    assume wf: "well_formed (Dir w es)" and q: "q \<in> set (walk p (Dir w es))"
    show "\<exists>rel w' es'. q = p @ rel \<and> lookup (Dir w es) rel = Some (Dir w' es')"
    proof (cases "q = p")
      case True
      then have "q = p @ [] \<and> lookup (Dir w es) [] = Some (Dir w es)" by simp
      then show ?thesis by blast
    next
      case False
      with q have "q \<in> set (walk_entries p es)" by simp
      with 3 wf obtain k m rel w' es' where
        *: "(k, m) \<in> set es" "q = p @ k # rel" "lookup m rel = Some (Dir w' es')"
        by (auto; blast)
      from wf *(1) have "map_of es k = Some m" by simp
      with *(3) have "lookup (Dir w es) (k # rel) = Some (Dir w' es')" by simp
      with *(2) show ?thesis by blast
    qed
  qed
next
  case (5 p e es)
  show ?case
  proof (intro impI ballI)
    fix q
    assume wf: "well_formed_entries (e # es)" and q: "q \<in> set (walk_entries p (e # es))"
    from q consider "q \<in> set (walk (p @ [fst e]) (snd e))" | "q \<in> set (walk_entries p es)"
      by auto
    then show "\<exists>k m rel w es'. (k, m) \<in> set (e # es) \<and> q = p @ k # rel
                 \<and> lookup m rel = Some (Dir w es')"
    proof cases
      case 1
      with 5(1) wf obtain rel w es' where
        "q = (p @ [fst e]) @ rel" "lookup (snd e) rel = Some (Dir w es')" by auto
      then have "(fst e, snd e) \<in> set (e # es) \<and> q = p @ fst e # rel
                   \<and> lookup (snd e) rel = Some (Dir w es')" by simp
      then show ?thesis by blast
    next
      case 2
      with 5(2) wf obtain k m rel w es' where
        "(k, m) \<in> set es" "q = p @ k # rel" "lookup m rel = Some (Dir w es')" by (auto; blast)
      then have "(k, m) \<in> set (e # es) \<and> q = p @ k # rel \<and> lookup m rel = Some (Dir w es')"
        by simp
      then show ?thesis by blast
    qed
  qed
qed auto

lemma lookup_append: 
  "lookup fs (p @ q) = (case lookup fs p of None \<Rightarrow> None | Some n \<Rightarrow> lookup n q)"
proof (induction p arbitrary: fs)
  case Nil
  show ?case by simp
next
  case (Cons k ks)
  show ?case by (cases fs) (auto simp: Cons.IH split: option.splits)
qed

lemma well_formed_entry: "well_formed_entries es \<Longrightarrow> (k, m) \<in> set es \<Longrightarrow> well_formed m"
  by (induction es) auto

lemma well_formed_lookup: "well_formed fs \<Longrightarrow> lookup fs p = Some n \<Longrightarrow> well_formed n"
proof (induction p arbitrary: fs)
  case Nil
  then show ?case by simp
next
  case (Cons k ks)
  from Cons.prems(2) obtain w es m where fs: "fs = Dir w es" and m: "map_of es k = Some m"
    and l: "lookup m ks = Some n"
    by (cases fs) (auto split: option.splits)
  from Cons.prems(1) fs well_formed_entry [OF _ map_of_SomeD [OF m]] have "well_formed m"
    by simp
  from Cons.IH [OF this l] show ?case .
qed

lemma os_walk_is_dir:
  assumes "well_formed fs" and "q \<in> set (os_walk fs start)"
  shows "\<exists>w es. lookup fs q = Some (Dir w es)"
proof -
  from assms(2) obtain n where n: "lookup fs start = Some n" and q: "q \<in> set (walk start n)"
    by (cases "lookup fs start") (auto simp: os_walk_def)
  from well_formed_lookup [OF assms(1) n] walk_is_dir_aux(1) [of n start] q
  obtain rel w es where "q = start @ rel" "lookup n rel = Some (Dir w es)" by blast
  with n show ?thesis by (simp add: lookup_append)
qed

lemma os_walk_contains:
  assumes "lookup fs (start @ rel) = Some (Dir w es)"
  shows "start @ rel \<in> set (os_walk fs start)"
proof -
  from assms obtain n where n: "lookup fs start = Some n" and l: "lookup n rel = Some (Dir w es)"
    by (auto simp: lookup_append split: option.splits)
  from lookup_in_walk [OF l, of start] n show ?thesis by (simp add: os_walk_def)
qed

section \<open>The generation loop\<close>

lemma process_folder_Inl: "process_folder fs p = Inl e \<longleftrightarrow> analyze_folder fs p = Inl e"
  by (auto simp: process_folder_def Let_def split: sum.splits)

lemma process_folder_cases:
  assumes "process_folder fs p = Inr (ev, fs')"
  obtains (failed) e where "ev = Failed p e" "fs' = fs"
  | (created) info where "ev = Created p" "analyze_folder fs p = Inr info"
      "write_text fs (p @ [readme]) (generate_readme_content info (parent_info_of fs p)) = Inr fs'"
  using assms by (auto simp: process_folder_def Let_def split: sum.splits)

lemma analyze_folder_dir: "lookup fs p = Some (Dir w es) \<Longrightarrow> \<exists>info. analyze_folder fs p = Inr info"
  by (simp add: analyze_folder_def)

lemma process_folder_dir:
  "lookup fs p = Some (Dir w es) \<Longrightarrow> \<exists>ev fs'. process_folder fs p = Inr (ev, fs')"
  by (auto simp: process_folder_def analyze_folder_def Let_def split: sum.splits)

lemma generation_invariant:
  assumes "I fs" and "set queue \<subseteq> S"
    and step: "\<And>cur p s cur'. I cur \<Longrightarrow> p \<in> S \<Longrightarrow> write_text cur (p @ [readme]) s = Inr cur'
                 \<Longrightarrow> I cur'"
  shows "I (tree (generation fs queue))"
  using assms(1,2)
proof (induction queue arbitrary: fs)
  case Nil
  then show ?case by simp
next
  case (Cons p ps)
  show ?case
  proof (cases "process_folder fs p")
    case (Inl e)
    with Cons.prems show ?thesis by simp
  next
    case (Inr r)
    obtain ev fs' where r: "r = (ev, fs')" by (cases r)
    from Inr r have pf: "process_folder fs p = Inr (ev, fs')" by simp
    from pf have "I fs'"
    proof (cases rule: process_folder_cases)
      case (failed e)
      with Cons.prems show ?thesis by simp
    next
      case (created info)
      from Cons.prems(2) have "p \<in> S" by simp
      from step [OF Cons.prems(1) this created(3)] show ?thesis .
    qed
    from Cons.IH [OF this] Cons.prems(2) have "I (tree (generation fs' ps))" by simp
    with pf show ?thesis by (simp add: Let_def)
  qed
qed

lemma generation_keeps_files:
  assumes "\<forall>p \<in> set queue. lookup fs (p @ [readme]) = None"
    and "lookup fs q = Some (File x)"
  shows "lookup (tree (generation fs queue)) q = Some (File x)"
proof -
  let ?I = "\<lambda>cur. \<forall>q x. lookup fs q = Some (File x) \<longrightarrow> lookup cur q = Some (File x)"
  have "?I (tree (generation fs queue))"
  proof (rule generation_invariant [where S = "set queue"])
    show "?I fs" by simp
    show "set queue \<subseteq> set queue" by simp
  next
    fix cur p s cur'
    assume I: "?I cur" and p: "p \<in> set queue"
      and w: "write_text cur (p @ [readme]) s = Inr cur'"
    show "?I cur'"
    proof (intro allI impI)
      fix q x
      assume l: "lookup fs q = Some (File x)"
      with assms(1) p have "q \<noteq> p @ [readme]" by auto
      from write_text_keeps_files [OF w this] I l show "lookup cur' q = Some (File x)" by simp
    qed
  qed
  with assms(2) show ?thesis by simp
qed

lemma generation_keeps_dirs:
  assumes "lookup fs q = Some (Dir w es)"
  shows "\<exists>es'. lookup (tree (generation fs queue)) q = Some (Dir w es')"
proof -
  let ?I = "\<lambda>cur. \<exists>es'. lookup cur q = Some (Dir w es')"
  show "?I (tree (generation fs queue))"
  proof (rule generation_invariant [where S = UNIV])
    show "?I fs" using assms by simp
    show "set queue \<subseteq> UNIV" by simp
  next
    fix cur p s cur'
    assume "?I cur" and "write_text cur (p @ [readme]) s = Inr cur'"
    then show "?I cur'" by (auto dest: write_text_keeps_dirs)
  qed
qed

lemma generation_keeps_paths:
  assumes "lookup fs q \<noteq> None"
  shows "lookup (tree (generation fs queue)) q \<noteq> None"
proof -
  let ?I = "\<lambda>cur. lookup cur q \<noteq> None"
  show "?I (tree (generation fs queue))"
  proof (rule generation_invariant [where S = UNIV])
    show "?I fs" using assms by simp
    show "set queue \<subseteq> UNIV" by simp
  next
    fix cur p s cur'
    assume "?I cur" and "write_text cur (p @ [readme]) s = Inr cur'"
    then show "?I cur'" by (auto dest: write_text_keeps_paths)
  qed
qed

lemma generation_os_walk: "os_walk (tree (generation fs queue)) start = os_walk fs start"
proof -
  let ?I = "\<lambda>cur. os_walk cur start = os_walk fs start"
  show "?I (tree (generation fs queue))"
  proof (rule generation_invariant [where S = UNIV])
    show "?I fs" by simp
    show "set queue \<subseteq> UNIV" by simp
  next
    fix cur p s cur'
    assume "?I cur" and "write_text cur (p @ [readme]) s = Inr cur'"
    then show "?I cur'" by (simp add: write_text_os_walk)
  qed
qed


lemma generation_raised_None:
  "\<forall>p \<in> set queue. \<exists>w es. lookup fs p = Some (Dir w es) \<Longrightarrow> raised (generation fs queue) = None"
proof (induction queue arbitrary: fs)
  case Nil
  show ?case by simp
next
  case (Cons p ps)
  from Cons.prems obtain w es where "lookup fs p = Some (Dir w es)" by auto
  from process_folder_dir [OF this] obtain ev fs' where pf: "process_folder fs p = Inr (ev, fs')"
    by blast
  have "\<forall>p \<in> set ps. \<exists>w es. lookup fs' p = Some (Dir w es)"
  proof
    fix q
    assume "q \<in> set ps"
    with Cons.prems obtain w es where q: "lookup fs q = Some (Dir w es)" by auto
    from pf show "\<exists>w es. lookup fs' q = Some (Dir w es)"
    proof (cases rule: process_folder_cases)
      case (failed e)
      with q show ?thesis by simp
    next
      case (created info)
      from write_text_keeps_dirs [OF created(3) q] show ?thesis by blast
    qed
  qed
  from Cons.IH [OF this] pf show ?case by (simp add: Let_def)
qed

lemma generation_log_paths:
  "ev \<in> set (log (generation fs queue)) \<Longrightarrow> \<exists>p \<in> set queue. ev = Created p \<or> (\<exists>e. ev = Failed p e)"
proof (induction queue arbitrary: fs)
  case Nil
  then show ?case by simp
next
  case (Cons p ps)
  show ?case
  proof (cases "process_folder fs p")
    case (Inl e)
    with Cons.prems show ?thesis by simp
  next
    case (Inr r)
    obtain ev' fs' where r: "r = (ev', fs')" by (cases r)
    from Inr r have pf: "process_folder fs p = Inr (ev', fs')" by simp
    from Cons.prems pf have "ev = ev' \<or> ev \<in> set (log (generation fs' ps))"
      by (simp add: Let_def)
    then show ?thesis
    proof
      assume "ev = ev'"
      with pf show ?thesis by (cases rule: process_folder_cases) auto
    next
      assume "ev \<in> set (log (generation fs' ps))"
      from Cons.IH [OF this] show ?thesis by auto
    qed
  qed
qed

lemma generation_log_complete:
  "raised (generation fs queue) = None \<Longrightarrow> p \<in> set queue
   \<Longrightarrow> Created p \<in> set (log (generation fs queue))
       \<or> (\<exists>e. Failed p e \<in> set (log (generation fs queue)))"
proof (induction queue arbitrary: fs)
  case Nil
  then show ?case by simp
next
  case (Cons q qs)
  show ?case
  proof (cases "process_folder fs q")
    case (Inl e)
    with Cons.prems show ?thesis by simp
  next
    case (Inr r)
    obtain ev fs' where r: "r = (ev, fs')" by (cases r)
    from Inr r have pf: "process_folder fs q = Inr (ev, fs')" by simp
    from Cons.prems(1) pf have rn: "raised (generation fs' qs) = None" by (simp add: Let_def)
    have lg: "log (generation fs (q # qs)) = ev # log (generation fs' qs)"
      using pf by (simp add: Let_def)
    show ?thesis
    proof (cases "p = q")
      case True
      from pf show ?thesis
        unfolding lg True by (cases rule: process_folder_cases) auto
    next
      case False
      with Cons.prems(2) have "p \<in> set qs" by simp
      from Cons.IH [OF rn this] show ?thesis unfolding lg by auto
    qed
  qed
qed

lemma generation_Created_exists:
  "Created p \<in> set (log (generation fs queue))
   \<Longrightarrow> lookup (tree (generation fs queue)) (p @ [readme]) \<noteq> None"
proof (induction queue arbitrary: fs)
  case Nil
  then show ?case by simp
next
  case (Cons q qs)
  show ?case
  proof (cases "process_folder fs q")
    case (Inl e)
    with Cons.prems show ?thesis by simp
  next
    case (Inr r)
    obtain ev fs' where r: "r = (ev, fs')" by (cases r)
    from Inr r have pf: "process_folder fs q = Inr (ev, fs')" by simp
    have tr: "tree (generation fs (q # qs)) = tree (generation fs' qs)"
      using pf by (simp add: Let_def)
    from Cons.prems pf have "Created p = ev \<or> Created p \<in> set (log (generation fs' qs))"
      by (simp add: Let_def)
    then show ?thesis
    proof
      assume ev: "Created p = ev"
      from pf have "lookup fs' (p @ [readme]) \<noteq> None"
      proof (cases rule: process_folder_cases)
        case (failed e)
        with ev show ?thesis by simp
      next
        case (created info)
        from created(1) ev have "q = p" by simp
        with write_text_lookup_target [OF created(3)] show ?thesis by simp
      qed
      from generation_keeps_paths [OF this] show ?thesis unfolding tr by simp
    next
      assume "Created p \<in> set (log (generation fs' qs))"
      from Cons.IH [OF this] show ?thesis unfolding tr by simp
    qed
  qed
qed

section \<open>The whole run\<close>


lemma main_tree:
  "tree (main fs)
     = (if \<not> path_exists fs src_path then fs
        else tree (generation fs (sort_key (\<lambda>p. length (parts p)) (folders_to_process fs))))"
  by (simp add: main_def Let_def)

lemma main_raised:
  "raised (main fs)
     = (if \<not> path_exists fs src_path then None
        else raised (generation fs (sort_key (\<lambda>p. length (parts p)) (folders_to_process fs))))"
  by (simp add: main_def Let_def)

lemma main_log:
  "log (main fs)
     = (if \<not> path_exists fs src_path then [Missing_root]
        else map Readme_exists (skipped fs)
             @ log (generation fs (sort_key (\<lambda>p. length (parts p)) (folders_to_process fs))))"
  by (simp add: main_def Let_def)

lemma folders_to_process_no_readme:
  "p \<in> set (folders_to_process fs) \<Longrightarrow> lookup fs (p @ [readme]) = None"
  by (simp add: folders_to_process_def path_exists_def)

lemma main_keeps_files:
  assumes "lookup fs q = Some (File x)"
  shows "lookup (tree (main fs)) q = Some (File x)"
proof (cases "path_exists fs src_path")
  case False
  with assms show ?thesis by (simp add: main_tree)
next
  case True
  have "\<forall>p \<in> set (sort_key (\<lambda>p. length (parts p)) (folders_to_process fs)).
          lookup fs (p @ [readme]) = None"
    by (simp add: folders_to_process_no_readme)
  from generation_keeps_files [OF this assms] True show ?thesis by (simp add: main_tree)
qed

lemma write_text_path_exists:
  assumes "write_text fs t s = Inr fs'" and "lookup fs t \<noteq> None"
  shows "path_exists fs' q = path_exists fs q"
  using write_text_keeps_paths [OF assms(1), of q] write_text_new_paths [OF assms(1), of q] assms(2)
  by (auto simp: path_exists_def)

text \<open>
  C2. A folder that holds a file \<open>README.md\<close> at discovery is not queued, whatever the
  text of that file (replacing the text leaves the queue as it is); and the run leaves
  every file that exists at the start, this \<open>README.md\<close> among them, as it was.
\<close>

theorem existing_readme_untouched:
  assumes "lookup fs (p @ [readme]) = Some (File x)"
  shows "p \<notin> set (folders_to_process fs)
         \<and> (\<forall>s fs2. write_text fs (p @ [readme]) s = Inr fs2
                \<longrightarrow> folders_to_process fs2 = folders_to_process fs)
         \<and> lookup (tree (main fs)) (p @ [readme]) = Some (File x)
         \<and> (\<forall>q y. lookup fs q = Some (File y) \<longrightarrow> lookup (tree (main fs)) q = Some (File y))"
proof -
  have a: "p \<notin> set (folders_to_process fs)"
    using assms folders_to_process_no_readme [of p fs] by auto
  have b: "\<forall>s fs2. write_text fs (p @ [readme]) s = Inr fs2
             \<longrightarrow> folders_to_process fs2 = folders_to_process fs"
  proof (intro allI impI)
    fix s fs2
    assume w: "write_text fs (p @ [readme]) s = Inr fs2"
    from assms have "lookup fs (p @ [readme]) \<noteq> None" by simp
    from write_text_path_exists [OF w this] write_text_os_walk [OF w]
    show "folders_to_process fs2 = folders_to_process fs"
      by (simp add: folders_to_process_def)
  qed
  from a b main_keeps_files [OF assms] main_keeps_files show ?thesis by blast
qed


theorem existing_readme_untouched_witness:
  "lookup project_with_readme (src_path @ [readme]) = Some (File (Some ''mine''))
   \<and> src_path \<notin> set (folders_to_process project_with_readme)
   \<and> lookup (tree (main project_with_readme)) (src_path @ [readme]) = Some (File (Some ''mine''))"
proof -
  have h: "lookup project_with_readme (src_path @ [readme]) = Some (File (Some ''mine''))"
    by (simp add: project_with_readme_def at_root_def src_path_def project_root_def readme_def)
  note c = existing_readme_untouched [OF h]
  from h c show ?thesis by blast
qed



lemma folders_to_process_empty:
  assumes "\<forall>p \<in> set (os_walk fs src_path). lookup fs (p @ [readme]) \<noteq> None"
  shows "folders_to_process fs = []"
  using assms by (simp add: folders_to_process_def path_exists_def filter_empty_conv)

text \<open>
  C3. When the first run ends without an exception and reports no failed write, a
  second run on the tree it leaves behind queues no folder, changes nothing and raises
  nothing.
\<close>

theorem second_run_changes_nothing:
  assumes "raised (main fs) = None" and "\<forall>ev \<in> set (log (main fs)). \<not> is_failed ev"
  shows "folders_to_process (tree (main fs)) = []
         \<and> tree (main (tree (main fs))) = tree (main fs)
         \<and> raised (main (tree (main fs))) = None"
proof (cases "path_exists fs src_path")
  case False
  then have t: "tree (main fs) = fs" by (simp add: main_tree)
  from False have "os_walk fs src_path = []" by (simp add: os_walk_def path_exists_def)
  then have "folders_to_process fs = []" by (simp add: folders_to_process_def)
  with False show ?thesis by (simp add: t main_tree main_raised)
next
  case True
  let ?queue = "sort_key (\<lambda>p. length (parts p)) (folders_to_process fs)"
  let ?r = "generation fs ?queue"
  from True have t: "tree (main fs) = tree ?r" by (simp add: main_tree)
  from True assms(1) have rn: "raised ?r = None" by (simp add: main_raised)
  from True assms(2) have nf: "\<forall>ev \<in> set (log ?r). \<not> is_failed ev" by (simp add: main_log)
  have w: "os_walk (tree ?r) src_path = os_walk fs src_path" by (rule generation_os_walk)
  have "\<forall>p \<in> set (os_walk (tree ?r) src_path). lookup (tree ?r) (p @ [readme]) \<noteq> None"
    unfolding w
  proof
    fix p
    assume p: "p \<in> set (os_walk fs src_path)"
    show "lookup (tree ?r) (p @ [readme]) \<noteq> None"
    proof (cases "lookup fs (p @ [readme]) = None")
      case False
      then show ?thesis by (rule generation_keeps_paths)
    next
      case True
      with p have "p \<in> set ?queue" by (simp add: folders_to_process_def path_exists_def)
      from generation_log_complete [OF rn this] nf have "Created p \<in> set (log ?r)" by auto
      then show ?thesis by (rule generation_Created_exists)
    qed
  qed
  then have a: "folders_to_process (tree ?r) = []" by (rule folders_to_process_empty)
  from True have "path_exists (tree ?r) src_path"
    unfolding path_exists_def by (rule generation_keeps_paths)
  with a have "tree (main (tree ?r)) = tree ?r" "raised (main (tree ?r)) = None"
    by (simp_all add: main_tree main_raised)
  with a show ?thesis unfolding t by simp
qed

section \<open>Folders with excluded names\<close>

lemma process_folder_creates:
  assumes "lookup fs p = Some (Dir True es)"
    and "lookup fs (p @ [readme]) = None \<or> (\<exists>x. lookup fs (p @ [readme]) = Some (File x))"
  shows "\<exists>fs'. process_folder fs p = Inr (Created p, fs')"
proof -
  let ?content = "generate_readme_content (analyze_entries p es) (parent_info_of fs p)"
  from write_text_succeeds [OF assms, of ?content] obtain fs'
    where "write_text fs (p @ [readme]) ?content = Inr fs'" by blast
  with assms(1) have "process_folder fs p = Inr (Created p, fs')"
    by (simp add: process_folder_def analyze_folder_def)
  then show ?thesis by blast
qed

lemma generation_creates:
  assumes "\<forall>q \<in> set queue. \<exists>w es. lookup fs q = Some (Dir w es)"
    and "p \<in> set queue"
    and "lookup fs p = Some (Dir True es)"
    and "lookup fs (p @ [readme]) = None \<or> (\<exists>x. lookup fs (p @ [readme]) = Some (File x))"
  shows "Created p \<in> set (log (generation fs queue))"
  using assms
proof (induction queue arbitrary: fs es)
  case Nil
  then show ?case by simp
next
  case (Cons q qs)
  show ?case
  proof (cases "q = p")
    case True
    from process_folder_creates [OF Cons.prems(3,4)] obtain fs'
      where "process_folder fs p = Inr (Created p, fs')" by blast
    with True show ?thesis by (simp add: Let_def)
  next
    case False
    with Cons.prems(2) have p: "p \<in> set qs" by simp
    from Cons.prems(1) obtain w0 es0 where "lookup fs q = Some (Dir w0 es0)" by auto
    from process_folder_dir [OF this] obtain ev fs' where pf: "process_folder fs q = Inr (ev, fs')"
      by blast
    have lg: "log (generation fs (q # qs)) = ev # log (generation fs' qs)"
      using pf by (simp add: Let_def)
    from pf have "(\<forall>q \<in> set qs. \<exists>w es. lookup fs' q = Some (Dir w es))
        \<and> (\<exists>es'. lookup fs' p = Some (Dir True es'))
        \<and> (lookup fs' (p @ [readme]) = None \<or> (\<exists>x. lookup fs' (p @ [readme]) = Some (File x)))"
    proof (cases rule: process_folder_cases)
      case (failed e)
      with Cons.prems show ?thesis by simp
    next
      case (created info)
      note w = created(3)
      have 1: "\<forall>q \<in> set qs. \<exists>w es. lookup fs' q = Some (Dir w es)"
        using Cons.prems(1) write_text_keeps_dirs [OF w] by (metis list.set_intros(2))
      have 2: "\<exists>es'. lookup fs' p = Some (Dir True es')"
        using write_text_keeps_dirs [OF w Cons.prems(3)] .
      have 3: "lookup fs' (p @ [readme]) = None \<or> (\<exists>x. lookup fs' (p @ [readme]) = Some (File x))"
      proof (cases "lookup fs' (p @ [readme]) = None")
        case True
        then show ?thesis by simp
      next
        case nn: False
        from False have ne: "p @ [readme] \<noteq> q @ [readme]" by simp
        with write_text_new_paths [OF w nn] have "lookup fs (p @ [readme]) \<noteq> None" by simp
        with Cons.prems(4) obtain x where "lookup fs (p @ [readme]) = Some (File x)" by auto
        from write_text_keeps_files [OF w ne this] show ?thesis by simp
      qed
      from 1 2 3 show ?thesis by simp
    qed
    then obtain es' where
      "\<forall>q \<in> set qs. \<exists>w es. lookup fs' q = Some (Dir w es)"
      "lookup fs' p = Some (Dir True es')"
      "lookup fs' (p @ [readme]) = None \<or> (\<exists>x. lookup fs' (p @ [readme]) = Some (File x))"
      by blast
    from Cons.IH [OF this(1) p this(2,3)] show ?thesis unfolding lg by simp
  qed
qed

lemma queue_is_dirs:
  assumes "well_formed fs"
  shows "\<forall>q \<in> set (sort_key (\<lambda>p. length (parts p)) (folders_to_process fs)).
           \<exists>w es. lookup fs q = Some (Dir w es)"
  using os_walk_is_dir [OF assms, of _ src_path] by (simp add: folders_to_process_def)

lemma main_never_raises: "well_formed fs \<Longrightarrow> raised (main fs) = None"
  by (simp add: main_raised generation_raised_None [OF queue_is_dirs])

lemma excluded_not_listed: "n \<in> set excluded \<Longrightarrow> n \<notin> set (listed_subfolders es)"
  by (simp add: listed_subfolders_def)

text \<open>
  C9. The exclusion list only filters the subfolder names that the analyzer records.
  A directory below \<open>src\<close> whose name is on the list and that holds no \<open>README.md\<close> is
  queued like any other; when entries can be created in it, the run creates its
  \<open>README.md\<close>.
\<close>

theorem excluded_names_still_queued:
  assumes "well_formed fs"
    and "lookup fs (src_path @ rel) = Some (Dir w es)"
    and "path_name (src_path @ rel) \<in> set excluded"
    and "lookup fs (src_path @ rel @ [readme]) = None"
  shows "src_path @ rel \<in> set (folders_to_process fs)
         \<and> (\<forall>p es'. path_name (src_path @ rel) \<notin> set (subfolders (analyze_entries p es')))
         \<and> (w \<longrightarrow> Created (src_path @ rel) \<in> set (log (main fs))
                  \<and> path_exists (tree (main fs)) (src_path @ rel @ [readme]))"
proof -
  let ?p = "src_path @ rel"
  let ?queue = "sort_key (\<lambda>p. length (parts p)) (folders_to_process fs)"
  from assms(4) have nr: "lookup fs (?p @ [readme]) = None" by simp
  from os_walk_contains [OF assms(2)] nr have a: "?p \<in> set (folders_to_process fs)"
    by (simp add: folders_to_process_def path_exists_def)
  have b: "\<forall>p es'. path_name ?p \<notin> set (subfolders (analyze_entries p es'))"
    using excluded_not_listed [OF assms(3)] by (simp add: analyze_entries_subfolders)
  from assms(2) have ex: "path_exists fs src_path"
    by (auto simp: path_exists_def lookup_append split: option.splits)
  have c: "w \<longrightarrow> Created ?p \<in> set (log (main fs)) \<and> path_exists (tree (main fs)) (?p @ [readme])"
  proof
    assume w
    with assms(2) have d: "lookup fs ?p = Some (Dir True es)" by simp
    from a have "?p \<in> set ?queue" by simp
    from generation_creates [OF queue_is_dirs [OF assms(1)] this d] nr
    have cr: "Created ?p \<in> set (log (generation fs ?queue))" by simp
    from generation_Created_exists [OF cr] ex cr
    show "Created ?p \<in> set (log (main fs)) \<and> path_exists (tree (main fs)) (?p @ [readme])"
      by (simp add: main_log main_tree path_exists_def)
  qed
  from a b c show ?thesis by simp
qed

section \<open>A concrete run\<close>

lemmas run_simps =
  main_def folders_to_process_def skipped_def os_walk_def path_exists_def process_folder_def
  analyze_folder_def parent_info_of_def parent_def parts_def src_path_def project_root_def
  readme_def at_root_def path_name_def Let_def

lemma main_project_plain:
  "main project_plain =
     \<lparr>log = [Created src_path, Created (src_path @ [''Agent'']),
             Created (src_path @ [''node_modules'']), Created (src_path @ [''Agent'', ''tools''])],
      tree = at_root (Dir True [(''src'', Dir True
        [(''Agent'', Dir True
           [(''tools'', Dir True
              [(''README.md'', File (Some (generate_readme_content
                  (analyze_entries (src_path @ [''Agent'', ''tools'']) []) (Some ''Agent''))))]),
            (''README.md'', File (Some (generate_readme_content
                (analyze_entries (src_path @ [''Agent'']) [(''tools'', Dir True [])]) None)))]),
         (''node_modules'', Dir True
           [(''README.md'', File (Some (generate_readme_content
                (analyze_entries (src_path @ [''node_modules'']) []) None)))]),
         (''README.md'', File (Some (generate_readme_content
             (analyze_entries src_path
                [(''Agent'', Dir True [(''tools'', Dir True [])]), (''node_modules'', Dir True [])])
             None)))])]),
      raised = None\<rparr>"
  by (simp add: run_simps project_plain_def)

theorem second_run_changes_nothing_witness:
  "raised (main project_plain) = None
   \<and> log (main project_plain)
       = [Created src_path, Created (src_path @ [''Agent'']),
          Created (src_path @ [''node_modules'']), Created (src_path @ [''Agent'', ''tools''])]
   \<and> folders_to_process (tree (main project_plain)) = []
   \<and> tree (main (tree (main project_plain))) = tree (main project_plain)
   \<and> raised (main (tree (main project_plain))) = None"
proof -
  have h1: "raised (main project_plain) = None" by (simp add: main_project_plain)
  have lg: "log (main project_plain)
       = [Created src_path, Created (src_path @ [''Agent'']),
          Created (src_path @ [''node_modules'']), Created (src_path @ [''Agent'', ''tools''])]"
    by (simp add: main_project_plain)
  have h2: "\<forall>ev \<in> set (log (main project_plain)). \<not> is_failed ev"
    unfolding lg by simp
  note c = second_run_changes_nothing [OF h1 h2]
  from h1 lg c show ?thesis by blast
qed

lemma well_formed_project_plain: "well_formed project_plain"
  by (simp add: project_plain_def at_root_def)

theorem excluded_names_still_queued_witness:
  "well_formed project_plain
   \<and> lookup project_plain (src_path @ [''node_modules'']) = Some (Dir True [])
   \<and> path_name (src_path @ [''node_modules'']) \<in> set excluded
   \<and> lookup project_plain (src_path @ [''node_modules''] @ [readme]) = None
   \<and> src_path @ [''node_modules''] \<in> set (folders_to_process project_plain)
   \<and> Created (src_path @ [''node_modules'']) \<in> set (log (main project_plain))
   \<and> path_exists (tree (main project_plain)) (src_path @ [''node_modules''] @ [readme])"
proof -
  have h2: "lookup project_plain (src_path @ [''node_modules'']) = Some (Dir True [])"
    by (simp add: project_plain_def at_root_def src_path_def project_root_def)
  have h3: "path_name (src_path @ [''node_modules'']) \<in> set excluded"
    by (simp add: path_name_def excluded_def)
  have h4: "lookup project_plain (src_path @ [''node_modules''] @ [readme]) = None"
    by (simp add: project_plain_def at_root_def src_path_def project_root_def)
  note c = excluded_names_still_queued [OF well_formed_project_plain h2 h3 h4]
  from well_formed_project_plain h2 h3 h4 c show ?thesis by blast
qed

section \<open>A directory that cannot be enumerated\<close>

lemma generation_raises:
  "analyze_folder fs p = Inl e \<Longrightarrow> generation fs (p # queue) = \<lparr>log = [], tree = fs, raised = Some e\<rparr>"
  by (simp add: process_folder_def)

text \<open>
  C7. With \<open>src/a\<close> and \<open>src/b\<close> queued and \<open>src/a\<close> no longer enumerable when the
  generation loop reaches it, the loop ends at once with the \<open>PermissionError\<close>: nothing
  is printed for \<open>src/a\<close>, \<open>src/b\<close> is not processed and the tree is left as it was.
\<close>

theorem unreadable_folder_aborts_run:
  "generation project_locked [src_path @ [''a''], src_path @ [''b'']]
     = \<lparr>log = [], tree = project_locked, raised = Some PermissionError\<rparr>"
proof -
  have "analyze_folder project_locked (src_path @ [''a'']) = Inl PermissionError"
    by (simp add: analyze_folder_def project_locked_def at_root_def src_path_def project_root_def)
  then show ?thesis by (rule generation_raises)
qed

section \<open>The title line\<close>


















lemma readme_Agent:
  "lookup (tree (main project_plain)) (src_path @ [''Agent'', readme])
   = Some (File (Some (generate_readme_content
        (analyze_entries (src_path @ [''Agent'']) [(''tools'', Dir True [])]) None)))"
  by (simp add: main_project_plain at_root_def src_path_def project_root_def readme_def)



section \<open>The link to the parent\<close>

lemma readme_lines_tail:
  "\<exists>front. readme_lines info parent_info
     = front @ related_header
         # (case parent_info of Some parent_name \<Rightarrow> [related_link parent_name] | None \<Rightarrow> [])
         @ footer"
  by (simp add: readme_lines_def related_section_def)

lemma parent_info_of_cases:
  "parent_info_of fs p
     = (if parent p \<noteq> src_path \<and> parent p \<noteq> project_root \<and> path_exists fs (parent p @ [readme])
        then Some (path_name (parent p)) else None)"
  by (simp add: parent_info_of_def)

text \<open>
  C4. The document written for a folder ends with the \<open>Related Documentation\<close> header,
  then the link to the parent exactly when the parent is neither \<open>src\<close> nor the project
  root and holds \<open>README.md\<close> at the time the folder is processed, then the closing notice.
  The header is there in either case.
\<close>

theorem related_documentation_link:
  assumes "process_folder fs p = Inr (Created p, fs')"
  shows "\<exists>front. lookup fs' (p @ [readme])
           = Some (File (Some (join_lines
               (front @ related_header
                  # (if parent p \<noteq> src_path \<and> parent p \<noteq> project_root
                        \<and> path_exists fs (parent p @ [readme])
                     then [related_link (path_name (parent p))] else [])
                  @ footer))))"
  using assms
proof (cases rule: process_folder_cases)
  case (failed e)
  then show ?thesis by simp
next
  case (created info)
  from readme_lines_tail [of info "parent_info_of fs p"] obtain front where
    "readme_lines info (parent_info_of fs p)
       = front @ related_header
           # (if parent p \<noteq> src_path \<and> parent p \<noteq> project_root
                 \<and> path_exists fs (parent p @ [readme])
              then [related_link (path_name (parent p))] else [])
           @ footer"
    by (auto simp: parent_info_of_cases)
  with write_text_lookup_target [OF created(3)] show ?thesis
    by (auto simp: generate_readme_content_def)
qed

theorem related_documentation_link_witness:
  "process_folder project_nested (src_path @ [''a'', ''b''])
     = Inr (Created (src_path @ [''a'', ''b'']),
            at_root (Dir True [(''src'', Dir True
              [(''a'', Dir True
                 [(''README.md'', File None),
                  (''b'', Dir True
                     [(''README.md'', File (Some (generate_readme_content
                         (analyze_entries (src_path @ [''a'', ''b'']) []) (Some ''a''))))])])])]))
   \<and> (\<exists>front.
         lookup
           (at_root (Dir True [(''src'', Dir True
              [(''a'', Dir True
                 [(''README.md'', File None),
                  (''b'', Dir True
                     [(''README.md'', File (Some (generate_readme_content
                         (analyze_entries (src_path @ [''a'', ''b'']) []) (Some ''a''))))])])])]))
           ((src_path @ [''a'', ''b'']) @ [readme])
         = Some (File (Some (join_lines
             (front @ related_header # [related_link ''a''] @ footer)))))"
proof -
  let ?p = "src_path @ [''a'', ''b'']"
  let ?t = "at_root (Dir True [(''src'', Dir True
              [(''a'', Dir True
                 [(''README.md'', File None),
                  (''b'', Dir True
                     [(''README.md'', File (Some (generate_readme_content
                         (analyze_entries (src_path @ [''a'', ''b'']) []) (Some ''a''))))])])])])"
  have h: "process_folder project_nested ?p = Inr (Created ?p, ?t)"
    by (simp add: process_folder_def analyze_folder_def parent_info_of_def parent_def
          path_exists_def path_name_def project_nested_def at_root_def src_path_def
          project_root_def readme_def)
  have c: "parent ?p \<noteq> src_path \<and> parent ?p \<noteq> project_root
             \<and> path_exists project_nested (parent ?p @ [readme])"
    by (simp add: parent_def path_exists_def project_nested_def at_root_def src_path_def
          project_root_def readme_def)
  have n: "path_name (parent ?p) = ''a''"
    by (simp add: parent_def path_name_def src_path_def project_root_def)
  from related_documentation_link [OF h]
  have "\<exists>front. lookup ?t (?p @ [readme])
          = Some (File (Some (join_lines (front @ related_header # [related_link ''a''] @ footer))))"
    unfolding if_P [OF c] n .
  with h show ?thesis by (rule conjI)
qed

lemma related_header_always: "related_header \<in> set (readme_lines info parent_info)"
  by (simp add: readme_lines_def related_section_def)

lemma no_link_Agent:
  "related_link ''src''
     \<notin> set (readme_lines (analyze_entries (src_path @ [''Agent'']) [(''tools'', Dir True [])]) None)"
  by (simp add: readme_lines_def key_files_section_def subfolders_section_def
        analyze_entries_files analyze_entries_subfolders file_names_def listed_subfolders_def
        is_file_def excluded_def fixed_sections_def related_section_def footer_def
        related_link_def related_header_def title_line_def subfolders_header_def
        subfolder_line_def)

text \<open>
  In the run on the project \<open>src/Agent/tools\<close>, \<open>src/node_modules\<close>: \<open>README.md\<close> of \<open>src\<close> is
  created before \<open>src/Agent\<close> is processed, and the document of \<open>src/Agent\<close> is the one
  rendered without a parent, which holds no link to \<open>src\<close>; the project root, parent of
  \<open>src\<close>, never gets \<open>README.md\<close>, and the document of \<open>src\<close> holds the
  \<open>Related Documentation\<close> header all the same.
\<close>

theorem parent_link_counterexample:
  "log (main project_plain)
     = [Created src_path, Created (src_path @ [''Agent'']),
        Created (src_path @ [''node_modules'']), Created (src_path @ [''Agent'', ''tools''])]
   \<and> lookup (tree (main project_plain)) (src_path @ [''Agent'', readme])
       = Some (File (Some (generate_readme_content
            (analyze_entries (src_path @ [''Agent'']) [(''tools'', Dir True [])]) None)))
   \<and> related_link ''src''
       \<notin> set (readme_lines
                (analyze_entries (src_path @ [''Agent'']) [(''tools'', Dir True [])]) None)
   \<and> lookup (tree (main project_plain)) (project_root @ [readme]) = None
   \<and> lookup (tree (main project_plain)) (src_path @ [readme])
       = Some (File (Some (generate_readme_content
            (analyze_entries src_path
               [(''Agent'', Dir True [(''tools'', Dir True [])]), (''node_modules'', Dir True [])])
            None)))
   \<and> related_header
       \<in> set (readme_lines
                (analyze_entries src_path
                   [(''Agent'', Dir True [(''tools'', Dir True [])]),
                    (''node_modules'', Dir True [])])
                None)"
proof -
  have a: "log (main project_plain)
     = [Created src_path, Created (src_path @ [''Agent'']),
        Created (src_path @ [''node_modules'']), Created (src_path @ [''Agent'', ''tools''])]"
    by (simp add: main_project_plain)
  have b: "lookup (tree (main project_plain)) (project_root @ [readme]) = None"
    by (simp add: main_project_plain at_root_def project_root_def readme_def)
  have c: "lookup (tree (main project_plain)) (src_path @ [readme])
       = Some (File (Some (generate_readme_content
            (analyze_entries src_path
               [(''Agent'', Dir True [(''tools'', Dir True [])]), (''node_modules'', Dir True [])])
            None)))"
    by (simp add: main_project_plain at_root_def src_path_def project_root_def readme_def)
  show ?thesis
    by (intro conjI a readme_Agent no_link_Agent b c related_header_always)
qed

end
